theory Spec2Isabelle
  imports Main
begin

section \<open>The queue object\<close>

text \<open>
  \<^verbatim>\<open>DaneJoe::MTQueue<T>\<close> (mt_queue.hpp) has two data members guarded by \<^verbatim>\<open>m_mutex\<close>:
  the buffer \<^verbatim>\<open>std::queue<T> m_queue\<close> and the flag \<^verbatim>\<open>bool m_is_running = true\<close>.
  The buffer is a list whose head is the front of the queue. Every member function
  reads and writes the two members inside one critical section, so a call is one
  atomic step on this record.
\<close>

record 'a MTQueue =
  m_queue :: "'a list"
  m_is_running :: bool

text \<open>\<^verbatim>\<open>MTQueue() = default\<close>: an empty buffer and the member initialiser \<^verbatim>\<open>true\<close>.\<close>

definition MTQueue_default :: "'a MTQueue" where
  "MTQueue_default = \<lparr>m_queue = [], m_is_running = True\<rparr>"

subsection \<open>Waiting on the condition variable\<close>

text \<open>
  The predicate handed to every wait:
  \<^verbatim>\<open>[this]() { return !m_queue.empty() || !m_is_running; }\<close>
\<close>

definition wake_pred :: "'a MTQueue \<Rightarrow> bool" where
  "wake_pred q = (m_queue q \<noteq> [] \<or> \<not> m_is_running q)"

text \<open>
  \<^verbatim>\<open>m_cv.wait(lock, pred)\<close> is \<^verbatim>\<open>while (!pred()) wait(lock);\<close>. Each \<^verbatim>\<open>wait(lock)\<close> releases
  the mutex, parks the thread and takes the mutex again; whatever the other threads
  did to the queue in between is one \<^emph>\<open>interference\<close>, a function on the state. The
  list is the sequence of interferences of the successive \<^verbatim>\<open>wait(lock)\<close> calls, in
  order; when it is used up and the predicate is still false the thread stays parked,
  which is the result \<open>None\<close>. A thread that nobody else disturbs has the empty list.
\<close>

type_synonym 'a interference = "'a MTQueue \<Rightarrow> 'a MTQueue"

fun cv_wait :: "'a interference list \<Rightarrow> 'a MTQueue \<Rightarrow> 'a MTQueue option" where
  "cv_wait [] q = (if wake_pred q then Some q else None)"
| "cv_wait (e # es) q = (if wake_pred q then Some q else cv_wait es (e q))"

text \<open>
  \<^verbatim>\<open>m_cv.wait_until(lock, timeout, pred)\<close> is
  \<^verbatim>\<open>while (!pred()) if (wait_until(lock, timeout) == cv_status::timeout) return pred(); return true;\<close>
  The list holds the interferences of the calls that were woken before the deadline,
  \<open>final\<close> the interference of the call that ran into the deadline. The wait always
  returns: the value of the predicate, and the state the thread then holds the lock on.
\<close>

fun cv_wait_until :: "'a interference list \<Rightarrow> 'a interference \<Rightarrow> 'a MTQueue \<Rightarrow> bool \<times> 'a MTQueue" where
  "cv_wait_until [] final q =
     (if wake_pred q then (True, q) else (wake_pred (final q), final q))"
| "cv_wait_until (e # es) final q =
     (if wake_pred q then (True, q) else cv_wait_until es final (e q))"

text \<open>\<^verbatim>\<open>wait_for(lock, d, pred)\<close> is \<^verbatim>\<open>wait_until(lock, now() + d, pred)\<close>.\<close>

definition cv_wait_for :: "'a interference list \<Rightarrow> 'a interference \<Rightarrow> 'a MTQueue \<Rightarrow> bool \<times> 'a MTQueue" where
  "cv_wait_for wakes final q = cv_wait_until wakes final q"

text \<open>The state the waiting thread finds at its \<open>k\<close>-th look at the predicate.\<close>

definition seen :: "nat \<Rightarrow> 'a interference list \<Rightarrow> 'a MTQueue \<Rightarrow> 'a MTQueue" where
  "seen k es q = fold (\<lambda>e s. e s) (take k es) q"

subsection \<open>Member functions\<close>

text \<open>
  \<^verbatim>\<open>try_pop\<close> (lines 32-42): under the lock, \<^verbatim>\<open>nullopt\<close> on an empty buffer, otherwise the
  front is moved out and popped.
\<close>

definition try_pop :: "'a MTQueue \<Rightarrow> 'a option \<times> 'a MTQueue" where
  "try_pop q =
     (if m_queue q = [] then (None, q)
      else (Some (hd (m_queue q)), q\<lparr>m_queue := tl (m_queue q)\<rparr>))"

text \<open>\<^verbatim>\<open>pop\<close> (lines 17-31): the unbounded wait, then the same test and removal.\<close>

definition pop :: "'a interference list \<Rightarrow> 'a MTQueue \<Rightarrow> ('a option \<times> 'a MTQueue) option" where
  "pop es q =
     (case cv_wait es q of
        None \<Rightarrow> None
      | Some s \<Rightarrow>
          if m_queue s = [] then Some (None, s)
          else Some (Some (hd (m_queue s)), s\<lparr>m_queue := tl (m_queue s)\<rparr>))"

text \<open>
  \<^verbatim>\<open>pop_until\<close> (lines 43-58) and \<^verbatim>\<open>pop_for\<close> (lines 59-74): the bounded wait, whose
  boolean result is dropped, then the same test and removal.
\<close>

definition pop_until :: "'a interference list \<Rightarrow> 'a interference \<Rightarrow> 'a MTQueue \<Rightarrow> 'a option \<times> 'a MTQueue" where
  "pop_until wakes final q =
     (let s = snd (cv_wait_until wakes final q) in
      if m_queue s = [] then (None, s)
      else (Some (hd (m_queue s)), s\<lparr>m_queue := tl (m_queue s)\<rparr>))"

definition pop_for :: "'a interference list \<Rightarrow> 'a interference \<Rightarrow> 'a MTQueue \<Rightarrow> 'a option \<times> 'a MTQueue" where
  "pop_for wakes final q =
     (let s = snd (cv_wait_for wakes final q) in
      if m_queue s = [] then (None, s)
      else (Some (hd (m_queue s)), s\<lparr>m_queue := tl (m_queue s)\<rparr>))"

text \<open>The three observers (lines 75-89).\<close>

definition empty_q :: "'a MTQueue \<Rightarrow> bool" where
  "empty_q q = (m_queue q = [])"

definition size_q :: "'a MTQueue \<Rightarrow> nat" where
  "size_q q = length (m_queue q)"

definition is_running :: "'a MTQueue \<Rightarrow> bool" where
  "is_running q = m_is_running q"

text \<open>
  \<^verbatim>\<open>front\<close> (lines 95-108): the unbounded wait, then a copy of the front element when
  there is one. The function is \<^verbatim>\<open>const\<close>; the state it returns is the one it held the
  lock on.
\<close>

definition front :: "'a interference list \<Rightarrow> 'a MTQueue \<Rightarrow> ('a option \<times> 'a MTQueue) option" where
  "front es q =
     (case cv_wait es q of
        None \<Rightarrow> None
      | Some s \<Rightarrow>
          if m_queue s \<noteq> [] then Some (Some (hd (m_queue s)), s)
          else Some (None, s))"

text \<open>\<^verbatim>\<open>push\<close> (lines 109-125): appends only while the flag is set.\<close>

definition push :: "'a \<Rightarrow> 'a MTQueue \<Rightarrow> bool \<times> 'a MTQueue" where
  "push item q =
     (if m_is_running q then (True, q\<lparr>m_queue := m_queue q @ [item]\<rparr>)
      else (False, q))"

text \<open>\<^verbatim>\<open>close\<close> (lines 149-156).\<close>

definition close :: "'a MTQueue \<Rightarrow> 'a MTQueue" where
  "close q = q\<lparr>m_is_running := False\<rparr>"

text \<open>\<^verbatim>\<open>~MTQueue\<close> (lines 126-129) calls \<^verbatim>\<open>close()\<close>; this is the state its waiters are released on.\<close>

definition destructor :: "'a MTQueue \<Rightarrow> 'a MTQueue" where
  "destructor q = close q"

subsection \<open>Sequential use of one queue\<close>

text \<open>
  One thread calling the member functions one after the other, nobody else touching the
  queue: a blocking call waits with no interference, so it either returns at once or
  never (\<open>None\<close>); a bounded wait that finds the predicate false runs into its deadline.
\<close>

datatype 'a call =
  Push 'a | Pop | TryPop | PopUntil | PopFor | Front | Empty | Size | IsRunning | Close

datatype 'a result = Flag bool | Item "'a option" | Count nat | Done

fun exec :: "'a call \<Rightarrow> 'a MTQueue \<Rightarrow> ('a result \<times> 'a MTQueue) option" where
  "exec (Push x) q = Some (Flag (fst (push x q)), snd (push x q))"
| "exec Pop q = map_option (map_prod Item id) (pop [] q)"
| "exec TryPop q = Some (map_prod Item id (try_pop q))"
| "exec PopUntil q = Some (map_prod Item id (pop_until [] id q))"
| "exec PopFor q = Some (map_prod Item id (pop_for [] id q))"
| "exec Front q = map_option (map_prod Item id) (front [] q)"
| "exec Empty q = Some (Flag (empty_q q), q)"
| "exec Size q = Some (Count (size_q q), q)"
| "exec IsRunning q = Some (Flag (is_running q), q)"
| "exec Close q = Some (Done, close q)"

text \<open>A straight-line program of calls; it has a result only when no call hangs.\<close>

fun run :: "'a call list \<Rightarrow> 'a MTQueue \<Rightarrow> ('a result list \<times> 'a MTQueue) option" where
  "run [] q = Some ([], q)"
| "run (c # cs) q =
     (case exec c q of
        None \<Rightarrow> None
      | Some (r, q1) \<Rightarrow>
          (case run cs q1 of
             None \<Rightarrow> None
           | Some (rs, q2) \<Rightarrow> Some (r # rs, q2)))"

subsection \<open>Several queues: construction, moves, destruction\<close>

text \<open>
  The move operations read and write two objects and compare their addresses, so
  queues live in a store: an address holds a queue while an object is alive there.
  An operation on an address with no live object (or constructing over a live one)
  has no defined behaviour, which is the result \<open>None\<close>.
\<close>

type_synonym 'a heap = "nat \<Rightarrow> 'a MTQueue option"

text \<open>
  Modelled from the spec: the buffer a moved-from \<^verbatim>\<open>std::queue\<close> is left with. The
  container is the standard library's and not part of the sources; the spec has the
  source of a move "left empty", which is what \<^verbatim>\<open>std::deque\<close> with the default allocator
  does in libstdc++, libc++ and the MSVC library.
\<close>

definition moved_from :: "'a list \<Rightarrow> 'a list" where
  "moved_from xs = []"

text \<open>
  \<^verbatim>\<open>MTQueue(MTQueue&& other)\<close> (lines 130-136). The new object starts from its member
  initialisers; \<^verbatim>\<open>m_queue = std::move(other.m_queue)\<close> hands the elements over, then the
  flag is copied and the source's flag cleared.
\<close>

definition move_construct :: "nat \<Rightarrow> nat \<Rightarrow> 'a heap \<Rightarrow> 'a heap option" where
  "move_construct this other h =
     (case h other of
        None \<Rightarrow> None
      | Some src \<Rightarrow>
          if h this \<noteq> None then None
          else Some (h(this \<mapsto> MTQueue_default\<lparr>m_queue := m_queue src, m_is_running := m_is_running src\<rparr>,
                       other \<mapsto> src\<lparr>m_queue := moved_from (m_queue src), m_is_running := False\<rparr>)))"

text \<open>\<^verbatim>\<open>operator=(MTQueue&& other)\<close> (lines 137-148), with its address test first.\<close>

definition move_assign :: "nat \<Rightarrow> nat \<Rightarrow> 'a heap \<Rightarrow> 'a heap option" where
  "move_assign this other h =
     (case h this of
        None \<Rightarrow> None
      | Some dst \<Rightarrow>
          (case h other of
             None \<Rightarrow> None
           | Some src \<Rightarrow>
               if this = other then Some h
               else Some (h(this \<mapsto> dst\<lparr>m_queue := m_queue src, m_is_running := m_is_running src\<rparr>,
                            other \<mapsto> src\<lparr>m_queue := moved_from (m_queue src), m_is_running := False\<rparr>))))"

text \<open>
  The operations of the public interface on a store, each one atomic step (every
  member function does its reads and writes inside one critical section). A call that
  would wait forever has no step.
\<close>

datatype 'a op =
  New nat | On nat "'a call" | Delete nat | MoveConstruct nat nat | MoveAssign nat nat

fun step :: "'a op \<Rightarrow> 'a heap \<Rightarrow> 'a heap option" where
  "step (New a) h = (if h a = None then Some (h(a \<mapsto> MTQueue_default)) else None)"
| "step (On a c) h =
     (case h a of
        None \<Rightarrow> None
      | Some q \<Rightarrow> (case exec c q of None \<Rightarrow> None | Some (r, q1) \<Rightarrow> Some (h(a \<mapsto> q1))))"
| "step (Delete a) h = (case h a of None \<Rightarrow> None | Some q \<Rightarrow> Some (h(a := None)))"
| "step (MoveConstruct a b) h = move_construct a b h"
| "step (MoveAssign a b) h = move_assign a b h"

fun steps :: "'a op list \<Rightarrow> 'a heap \<Rightarrow> 'a heap option" where
  "steps [] h = Some h"
| "steps (x # xs) h = (case step x h of None \<Rightarrow> None | Some h1 \<Rightarrow> steps xs h1)"

text \<open>What \<^verbatim>\<open>is_running()\<close> of the object at an address reports.\<close>

definition flag_at :: "nat \<Rightarrow> 'a heap \<Rightarrow> bool option" where
  "flag_at a h = map_option is_running (h a)"

section \<open>The wait loop\<close>

text \<open>
  The unbounded wait returns exactly when some look at the predicate finds it true, with
  the state of the first such look; until then the thread stays parked.
\<close>

lemma seen_0: "seen 0 es q = q"
  by (simp add: seen_def)

lemma seen_Suc_Cons: "seen (Suc k) (e # es) q = seen k es (e q)"
  by (simp add: seen_def)

lemma cv_wait_None_iff:
  "cv_wait es q = None \<longleftrightarrow> (\<forall>k\<le>length es. \<not> wake_pred (seen k es q))"
proof (induction es arbitrary: q)
  case Nil
  then show ?case by (simp add: seen_0)
next
  case (Cons e es)
  show ?case
  proof (cases "wake_pred q")
    case True
    then have "wake_pred (seen 0 (e # es) q)" by (simp add: seen_0)
    with True show ?thesis by auto
  next
    case False
    have "(\<forall>k\<le>length (e # es). \<not> wake_pred (seen k (e # es) q)) \<longleftrightarrow>
          (\<forall>k\<le>length es. \<not> wake_pred (seen k es (e q)))"
    proof
      assume a: "\<forall>k\<le>length (e # es). \<not> wake_pred (seen k (e # es) q)"
      show "\<forall>k\<le>length es. \<not> wake_pred (seen k es (e q))"
      proof (intro allI impI)
        fix k assume "k \<le> length es"
        then have "Suc k \<le> length (e # es)" by simp
        with a have "\<not> wake_pred (seen (Suc k) (e # es) q)" by blast
        then show "\<not> wake_pred (seen k es (e q))" by (simp add: seen_Suc_Cons)
      qed
    next
      assume a: "\<forall>k\<le>length es. \<not> wake_pred (seen k es (e q))"
      show "\<forall>k\<le>length (e # es). \<not> wake_pred (seen k (e # es) q)"
      proof (intro allI impI)
        fix k assume k: "k \<le> length (e # es)"
        show "\<not> wake_pred (seen k (e # es) q)"
        proof (cases k)
          case 0
          with False show ?thesis by (simp add: seen_0)
        next
          case (Suc j)
          with k a show ?thesis by (simp add: seen_Suc_Cons)
        qed
      qed
    qed
    with False Cons.IH [of "e q"] show ?thesis by simp
  qed
qed

lemma cv_wait_Some_D:
  "cv_wait es q = Some s \<Longrightarrow>
     \<exists>k\<le>length es. s = seen k es q \<and> wake_pred s \<and> (\<forall>j<k. \<not> wake_pred (seen j es q))"
proof (induction es arbitrary: q)
  case Nil
  then show ?case by (auto simp: seen_0 split: if_splits)
next
  case (Cons e es)
  show ?case
  proof (cases "wake_pred q")
    case True
    with Cons.prems have "s = q" by simp
    with True have "s = seen 0 (e # es) q \<and> wake_pred s \<and> (\<forall>j<0. \<not> wake_pred (seen j (e # es) q))"
      by (simp add: seen_0)
    then show ?thesis by blast
  next
    case False
    with Cons.prems have "cv_wait es (e q) = Some s" by simp
    from Cons.IH [OF this] obtain k where k: "k \<le> length es" "s = seen k es (e q)" "wake_pred s"
      "\<forall>j<k. \<not> wake_pred (seen j es (e q))" by blast
    have "\<forall>j<Suc k. \<not> wake_pred (seen j (e # es) q)"
    proof (intro allI impI)
      fix j assume "j < Suc k"
      then show "\<not> wake_pred (seen j (e # es) q)"
        using False k(4) by (cases j) (simp_all add: seen_0 seen_Suc_Cons)
    qed
    with k have "Suc k \<le> length (e # es) \<and> s = seen (Suc k) (e # es) q \<and> wake_pred s \<and>
        (\<forall>j<Suc k. \<not> wake_pred (seen j (e # es) q))"
      by (simp add: seen_Suc_Cons)
    then show ?thesis by blast
  qed
qed

lemma cv_wait_ready: "wake_pred q \<Longrightarrow> cv_wait es q = Some q"
  by (cases es) simp_all

lemma not_wake_pred_eq: "\<not> wake_pred q \<longleftrightarrow> q = MTQueue_default"
  by (cases q) (auto simp: wake_pred_def MTQueue_default_def)

section \<open>Removal with an unbounded wait\<close>

text \<open>
  Claim C2. \<^verbatim>\<open>pop()\<close> looks at the queue at the call and after every wake-up. It stays
  in its wait as long as every look finds the buffer empty and the queue running, and
  returns at the first look that finds the buffer non-empty or the queue not running.
  When it returns from the state \<open>s\<close> of that look: a non-empty buffer gives its head,
  which is removed; the result is absent exactly when the buffer of \<open>s\<close> is empty and
  \<open>s\<close> is not running, and then nothing is changed. In particular a call on a non-empty
  buffer returns the head at once, a call on an empty closed queue returns absent at
  once, and a call on an empty running queue waits for the next look.
\<close>

theorem pop_waits_then_takes:
  "(pop es q = None \<longleftrightarrow>
      (\<forall>k\<le>length es. m_queue (seen k es q) = [] \<and> m_is_running (seen k es q))) \<and>
   (pop es q = Some (r, q') \<longrightarrow>
      (\<exists>k\<le>length es. \<exists>s. s = seen k es q \<and> (m_queue s \<noteq> [] \<or> \<not> m_is_running s) \<and>
          (\<forall>j<k. m_queue (seen j es q) = [] \<and> m_is_running (seen j es q)) \<and>
          (\<forall>x xs. m_queue s = x # xs \<longrightarrow> r = Some x \<and> q' = s\<lparr>m_queue := xs\<rparr>) \<and>
          (r = None \<longleftrightarrow> m_queue s = [] \<and> \<not> m_is_running s) \<and>
          (r = None \<longrightarrow> q' = s))) \<and>
   (\<forall>x xs. m_queue q = x # xs \<longrightarrow> pop es q = Some (Some x, q\<lparr>m_queue := xs\<rparr>)) \<and>
   (m_queue q = [] \<and> \<not> m_is_running q \<longrightarrow> pop es q = Some (None, q)) \<and>
   (m_queue q = [] \<and> m_is_running q \<longrightarrow> pop [] q = None \<and> pop (e # es) q = pop es (e q))"
proof (intro conjI impI allI)
  have "pop es q = None \<longleftrightarrow> cv_wait es q = None"
    by (simp add: pop_def split: option.splits)
  then show "pop es q = None \<longleftrightarrow>
      (\<forall>k\<le>length es. m_queue (seen k es q) = [] \<and> m_is_running (seen k es q))"
    by (simp add: cv_wait_None_iff wake_pred_def)
next
  assume p: "pop es q = Some (r, q')"
  then obtain s where s: "cv_wait es q = Some s"
    by (auto simp: pop_def split: option.splits)
  from cv_wait_Some_D [OF s] obtain k where k: "k \<le> length es" "s = seen k es q" "wake_pred s"
    "\<forall>j<k. \<not> wake_pred (seen j es q)" by blast
  from k(3) have w: "m_queue s \<noteq> [] \<or> \<not> m_is_running s" by (simp add: wake_pred_def)
  from k(4) have n: "\<forall>j<k. m_queue (seen j es q) = [] \<and> m_is_running (seen j es q)"
    by (simp add: wake_pred_def)
  from p s have rq: "(r, q') = (if m_queue s = [] then (None, s)
       else (Some (hd (m_queue s)), s\<lparr>m_queue := tl (m_queue s)\<rparr>))"
    by (simp add: pop_def split: if_splits)
  have a: "\<forall>x xs. m_queue s = x # xs \<longrightarrow> r = Some x \<and> q' = s\<lparr>m_queue := xs\<rparr>"
    using rq by auto
  have b: "r = None \<longleftrightarrow> m_queue s = [] \<and> \<not> m_is_running s"
    using rq w by (auto split: if_splits)
  have c: "r = None \<longrightarrow> q' = s"
    using rq by (auto split: if_splits)
  from k(1,2) w n a b c
  show "\<exists>k\<le>length es. \<exists>s. s = seen k es q \<and> (m_queue s \<noteq> [] \<or> \<not> m_is_running s) \<and>
          (\<forall>j<k. m_queue (seen j es q) = [] \<and> m_is_running (seen j es q)) \<and>
          (\<forall>x xs. m_queue s = x # xs \<longrightarrow> r = Some x \<and> q' = s\<lparr>m_queue := xs\<rparr>) \<and>
          (r = None \<longleftrightarrow> m_queue s = [] \<and> \<not> m_is_running s) \<and>
          (r = None \<longrightarrow> q' = s)"
    by blast
next
  fix x xs assume m: "m_queue q = x # xs"
  then have "wake_pred q" by (simp add: wake_pred_def)
  then have "cv_wait es q = Some q" by (rule cv_wait_ready)
  with m show "pop es q = Some (Some x, q\<lparr>m_queue := xs\<rparr>)" by (simp add: pop_def)
next
  assume m: "m_queue q = [] \<and> \<not> m_is_running q"
  then have "wake_pred q" by (simp add: wake_pred_def)
  then have "cv_wait es q = Some q" by (rule cv_wait_ready)
  with m show "pop es q = Some (None, q)" by (simp add: pop_def)
next
  assume m: "m_queue q = [] \<and> m_is_running q"
  then show "pop [] q = None" by (simp add: pop_def wake_pred_def)
  from m show "pop (e # es) q = pop es (e q)" by (simp add: pop_def wake_pred_def)
qed

theorem pop_waits_then_takes_witness:
  "pop [] \<lparr>m_queue = [4, 5 :: nat], m_is_running = True\<rparr> =
     Some (Some 4, \<lparr>m_queue = [5], m_is_running = True\<rparr>) \<and>
   pop [id, \<lambda>q. snd (push 7 q)] (MTQueue_default :: nat MTQueue) = Some (Some 7, MTQueue_default) \<and>
   seen 2 [id, \<lambda>q. snd (push 7 q)] (MTQueue_default :: nat MTQueue) = \<lparr>m_queue = [7], m_is_running = True\<rparr> \<and>
   seen 1 [id, \<lambda>q. snd (push 7 q)] (MTQueue_default :: nat MTQueue) = \<lparr>m_queue = [], m_is_running = True\<rparr> \<and>
   pop [id, close] (MTQueue_default :: nat MTQueue) = Some (None, \<lparr>m_queue = [], m_is_running = False\<rparr>) \<and>
   pop [] \<lparr>m_queue = [] :: nat list, m_is_running = False\<rparr> = Some (None, \<lparr>m_queue = [], m_is_running = False\<rparr>) \<and>
   pop [] (MTQueue_default :: nat MTQueue) = None"
  using pop_waits_then_takes [where es = "[]" and q = "\<lparr>m_queue = [4, 5 :: nat], m_is_running = True\<rparr>"
      and r = "Some 4" and q' = "\<lparr>m_queue = [5], m_is_running = True\<rparr>" and e = id]
    pop_waits_then_takes [where es = "[id, \<lambda>q. snd (push 7 q)]" and q = "MTQueue_default :: nat MTQueue"
      and r = "Some 7" and q' = "MTQueue_default" and e = id]
    pop_waits_then_takes [where es = "[id, close]" and q = "MTQueue_default :: nat MTQueue"
      and r = None and q' = "\<lparr>m_queue = [], m_is_running = False\<rparr>" and e = id]
    pop_waits_then_takes [where es = "[]" and q = "\<lparr>m_queue = [] :: nat list, m_is_running = False\<rparr>"
      and r = None and q' = "\<lparr>m_queue = [], m_is_running = False\<rparr>" and e = id]
    pop_waits_then_takes [where es = "[]" and q = "MTQueue_default :: nat MTQueue" and e = id]
  by (simp add: pop_def seen_def push_def wake_pred_def close_def MTQueue_default_def)

section \<open>Removal without waiting\<close>

text \<open>
  Claim C8. \<^verbatim>\<open>try_pop()\<close> has no wait: it always returns. On a non-empty buffer it
  returns the head and removes it, on an empty buffer it returns absent and changes
  nothing; result and remaining buffer do not depend on the running flag, which it
  leaves as it was.
\<close>

theorem try_pop_never_waits:
  "(\<forall>x xs. m_queue q = x # xs \<longrightarrow> try_pop q = (Some x, q\<lparr>m_queue := xs\<rparr>)) \<and>
   (m_queue q = [] \<longrightarrow> try_pop q = (None, q)) \<and>
   fst (try_pop (q\<lparr>m_is_running := b\<rparr>)) = fst (try_pop q) \<and>
   m_queue (snd (try_pop (q\<lparr>m_is_running := b\<rparr>))) = m_queue (snd (try_pop q)) \<and>
   m_is_running (snd (try_pop q)) = m_is_running q \<and>
   exec TryPop q \<noteq> None"
  by (simp add: try_pop_def)

theorem try_pop_never_waits_witness:
  "try_pop \<lparr>m_queue = [4, 5 :: nat], m_is_running = False\<rparr> = (Some 4, \<lparr>m_queue = [5], m_is_running = False\<rparr>) \<and>
   try_pop (MTQueue_default :: nat MTQueue) = (None, MTQueue_default) \<and>
   exec Pop (MTQueue_default :: nat MTQueue) = None \<and>
   exec TryPop (MTQueue_default :: nat MTQueue) \<noteq> None"
  using try_pop_never_waits [of "\<lparr>m_queue = [4, 5 :: nat], m_is_running = False\<rparr>" True]
    try_pop_never_waits [of "MTQueue_default :: nat MTQueue" True]
  by (simp add: MTQueue_default_def pop_def wake_pred_def)

section \<open>Peeking\<close>

lemma front_None_iff: "front es q = None \<longleftrightarrow> cv_wait es q = None"
  by (simp add: front_def split: option.splits)

lemma pop_None_iff: "pop es q = None \<longleftrightarrow> cv_wait es q = None"
  by (simp add: pop_def split: option.splits)

text \<open>
  Claim C9. \<^verbatim>\<open>front()\<close> waits exactly as \<^verbatim>\<open>pop()\<close> does (one is still parked if and only
  if the other is) and returns what \<^verbatim>\<open>pop()\<close> returns: the head when the buffer is
  non-empty, absent when the queue is closed and empty. It removes nothing: the state
  it returns on is the one the other threads left at the look that ended the wait, and
  with no other thread at work it is the state of the call.
\<close>

theorem front_waits_like_pop_and_keeps:
  "(front es q = None \<longleftrightarrow> pop es q = None) \<and>
   (front es q = Some (r, s) \<longrightarrow>
      (\<exists>q'. pop es q = Some (r, q')) \<and>
      (\<exists>k\<le>length es. s = seen k es q \<and> wake_pred s \<and> (\<forall>j<k. \<not> wake_pred (seen j es q))) \<and>
      (\<forall>x xs. m_queue s = x # xs \<longrightarrow> r = Some x) \<and>
      (r = None \<longleftrightarrow> m_queue s = [] \<and> \<not> m_is_running s)) \<and>
   (front [] q = Some (r, s) \<longrightarrow> s = q) \<and>
   (wake_pred q \<longrightarrow> (\<exists>r. front es q = Some (r, q)))"
proof (intro conjI impI)
  show "front es q = None \<longleftrightarrow> pop es q = None"
    by (simp only: front_None_iff pop_None_iff)
next
  assume f: "front es q = Some (r, s)"
  then have w: "cv_wait es q = Some s"
    by (auto simp: front_def split: option.splits if_splits)
  with f have r: "r = (if m_queue s \<noteq> [] then Some (hd (m_queue s)) else None)"
    by (auto simp: front_def split: if_splits)
  from w r show "\<exists>q'. pop es q = Some (r, q')"
    by (simp add: pop_def)
  from cv_wait_Some_D [OF w]
  show "\<exists>k\<le>length es. s = seen k es q \<and> wake_pred s \<and> (\<forall>j<k. \<not> wake_pred (seen j es q))" .
  from r show "\<forall>x xs. m_queue s = x # xs \<longrightarrow> r = Some x" by auto
  from cv_wait_Some_D [OF w] have "wake_pred s" by blast
  with r show "r = None \<longleftrightarrow> m_queue s = [] \<and> \<not> m_is_running s"
    by (auto simp: wake_pred_def)
next
  assume "front [] q = Some (r, s)"
  then show "s = q"
    by (auto simp: front_def split: option.splits if_splits)
next
  assume "wake_pred q"
  then have "cv_wait es q = Some q" by (rule cv_wait_ready)
  then show "\<exists>r. front es q = Some (r, q)"
    by (simp add: front_def)
qed

theorem front_waits_like_pop_and_keeps_witness:
  "front [] \<lparr>m_queue = [4, 5 :: nat], m_is_running = True\<rparr> =
      Some (Some 4, \<lparr>m_queue = [4, 5], m_is_running = True\<rparr>) \<and>
   pop [] \<lparr>m_queue = [4, 5 :: nat], m_is_running = True\<rparr> =
      Some (Some 4, \<lparr>m_queue = [5], m_is_running = True\<rparr>) \<and>
   wake_pred \<lparr>m_queue = [4, 5 :: nat], m_is_running = True\<rparr> \<and>
   front [] (MTQueue_default :: nat MTQueue) = None \<and>
   front [close] (MTQueue_default :: nat MTQueue) = Some (None, close MTQueue_default)"
  using front_waits_like_pop_and_keeps [of "[]" "\<lparr>m_queue = [4, 5 :: nat], m_is_running = True\<rparr>"
      "Some 4" "\<lparr>m_queue = [4, 5 :: nat], m_is_running = True\<rparr>"]
  by (simp add: front_def pop_def wake_pred_def close_def MTQueue_default_def)

section \<open>Removal with a bounded wait\<close>

lemma cv_wait_until_False_iff:
  "\<not> fst (cv_wait_until wakes final q) \<longleftrightarrow>
     (\<forall>k\<le>length wakes. \<not> wake_pred (seen k wakes q)) \<and>
     \<not> wake_pred (final (seen (length wakes) wakes q))"
proof (induction wakes arbitrary: q)
  case Nil
  then show ?case by (simp add: seen_0)
next
  case (Cons e es)
  show ?case
  proof (cases "wake_pred q")
    case True
    then have "wake_pred (seen 0 (e # es) q)" by (simp add: seen_0)
    with True show ?thesis by auto
  next
    case False
    have "(\<forall>k\<le>length (e # es). \<not> wake_pred (seen k (e # es) q)) \<longleftrightarrow>
          (\<forall>k\<le>length es. \<not> wake_pred (seen k es (e q)))"
      using False cv_wait_None_iff [of "e # es" q] cv_wait_None_iff [of es "e q"] by simp
    with False Cons.IH [of "e q"] show ?thesis by (simp add: seen_Suc_Cons)
  qed
qed

lemma cv_wait_until_False_state:
  "\<not> fst (cv_wait_until wakes final q) \<Longrightarrow>
     q = MTQueue_default \<and> snd (cv_wait_until wakes final q) = MTQueue_default"
proof (induction wakes arbitrary: q)
  case Nil
  then show ?case by (auto simp: not_wake_pred_eq split: if_splits)
next
  case (Cons e es)
  then show ?case by (auto simp: not_wake_pred_eq split: if_splits)
qed

text \<open>
  Claim C7. The bounded wait reports \<open>False\<close> exactly when every look at the
  predicate, the one at the deadline included, found the buffer empty and the flag
  set. \<^verbatim>\<open>pop_until\<close> and \<^verbatim>\<open>pop_for\<close> then return absent and the queue has the buffer and
  the running flag it had at the call.
\<close>

theorem timed_out_pop_changes_nothing:
  "(\<not> fst (cv_wait_until wakes final q) \<longleftrightarrow>
      (\<forall>k\<le>length wakes. \<not> wake_pred (seen k wakes q)) \<and>
      \<not> wake_pred (final (seen (length wakes) wakes q))) \<and>
   (\<not> fst (cv_wait_until wakes final q) \<longrightarrow> pop_until wakes final q = (None, q)) \<and>
   (\<not> fst (cv_wait_for wakes final q) \<longrightarrow> pop_for wakes final q = (None, q)) \<and>
   (\<not> wake_pred q \<longrightarrow> exec PopUntil q = Some (Item None, q) \<and> exec PopFor q = Some (Item None, q))"
proof (intro conjI impI)
  show "\<not> fst (cv_wait_until wakes final q) \<longleftrightarrow>
      (\<forall>k\<le>length wakes. \<not> wake_pred (seen k wakes q)) \<and>
      \<not> wake_pred (final (seen (length wakes) wakes q))"
    by (rule cv_wait_until_False_iff)
next
  assume "\<not> fst (cv_wait_until wakes final q)"
  note st = cv_wait_until_False_state [OF this]
  note a = st [THEN conjunct1] and b = st [THEN conjunct2]
  have "pop_until wakes final q = (None, MTQueue_default)"
    unfolding pop_until_def b by (simp add: MTQueue_default_def)
  with a show "pop_until wakes final q = (None, q)" by simp
next
  assume "\<not> fst (cv_wait_for wakes final q)"
  then have "\<not> fst (cv_wait_until wakes final q)" by (simp add: cv_wait_for_def)
  note st = cv_wait_until_False_state [OF this]
  note a = st [THEN conjunct1] and b = st [THEN conjunct2]
  have "pop_for wakes final q = (None, MTQueue_default)"
    unfolding pop_for_def cv_wait_for_def b by (simp add: MTQueue_default_def)
  with a show "pop_for wakes final q = (None, q)" by simp
next
  assume "\<not> wake_pred q"
  then show "exec PopUntil q = Some (Item None, q)"
    by (simp add: pop_until_def wake_pred_def)
next
  assume "\<not> wake_pred q"
  then show "exec PopFor q = Some (Item None, q)"
    by (simp add: pop_for_def cv_wait_for_def wake_pred_def)
qed

theorem timed_out_pop_changes_nothing_witness:
  "\<not> fst (cv_wait_until [id] id (MTQueue_default :: nat MTQueue)) \<and>
   pop_until [id] id (MTQueue_default :: nat MTQueue) = (None, MTQueue_default) \<and>
   \<not> fst (cv_wait_for [id] id (MTQueue_default :: nat MTQueue)) \<and>
   pop_for [id] id (MTQueue_default :: nat MTQueue) = (None, MTQueue_default) \<and>
   \<not> wake_pred (MTQueue_default :: nat MTQueue) \<and>
   exec PopFor (MTQueue_default :: nat MTQueue) = Some (Item None, MTQueue_default)"
  using timed_out_pop_changes_nothing [of "[id]" id "MTQueue_default :: nat MTQueue"]
  by (simp add: cv_wait_for_def wake_pred_def MTQueue_default_def)

section \<open>Straight-line programs on one queue\<close>

lemma exec_take_ready:
  assumes "wake_pred q" and "c \<in> {Pop, TryPop, PopUntil, PopFor}"
  shows "exec c q = Some (Item (fst (try_pop q)), snd (try_pop q))"
  using assms
  by (auto simp: pop_def pop_until_def pop_for_def cv_wait_for_def try_pop_def)

lemma exec_closed:
  assumes "\<not> m_is_running q" and "exec c q = Some (r, q')"
  shows "\<not> m_is_running q' \<and> set (m_queue q') \<subseteq> set (m_queue q) \<and>
         (\<forall>y. r = Item (Some y) \<longrightarrow> y \<in> set (m_queue q))"
proof -
  from assms(1) have w: "wake_pred q" by (simp add: wake_pred_def)
  have tl: "set (tl (m_queue q)) \<subseteq> set (m_queue q)"
    by (cases "m_queue q") auto
  show ?thesis
  proof (cases c)
    case (Push x)
    with assms show ?thesis by (auto simp: push_def)
  next
    case Pop
    with assms w tl show ?thesis by (auto simp: pop_def split: if_splits)
  next
    case TryPop
    with assms tl show ?thesis by (auto simp: try_pop_def split: if_splits)
  next
    case PopUntil
    with assms w tl show ?thesis by (auto simp: pop_until_def split: if_splits)
  next
    case PopFor
    with assms w tl show ?thesis by (auto simp: pop_for_def cv_wait_for_def split: if_splits)
  next
    case Front
    with assms w show ?thesis by (auto simp: front_def split: if_splits)
  next
    case Empty
    with assms show ?thesis by auto
  next
    case Size
    with assms show ?thesis by auto
  next
    case IsRunning
    with assms show ?thesis by auto
  next
    case Close
    with assms show ?thesis by (auto simp: close_def)
  qed
qed

lemma run_closed:
  "\<not> m_is_running q \<Longrightarrow> run cs q = Some (rs, q') \<Longrightarrow> x \<notin> set (m_queue q) \<Longrightarrow>
     Item (Some x) \<notin> set rs \<and> x \<notin> set (m_queue q') \<and> \<not> m_is_running q'"
proof (induction cs arbitrary: q rs)
  case Nil
  then show ?case by simp
next
  case (Cons c cs)
  from Cons.prems(2) obtain r q1 rs1 where
    e: "exec c q = Some (r, q1)" and t: "run cs q1 = Some (rs1, q')" and rs: "rs = r # rs1"
    by (auto split: option.splits)
  from exec_closed [OF Cons.prems(1) e] Cons.prems(3)
  have c1: "\<not> m_is_running q1" and x1: "x \<notin> set (m_queue q1)" and r: "r \<noteq> Item (Some x)"
    by auto
  from Cons.IH [OF c1 t x1] r rs show ?case by simp
qed

lemma run_append:
  "run (cs @ ds) q =
     (case run cs q of
        None \<Rightarrow> None
      | Some (rs, q1) \<Rightarrow>
          (case run ds q1 of None \<Rightarrow> None | Some (rs', q2) \<Rightarrow> Some (rs @ rs', q2)))"
  by (induction cs arbitrary: q) (auto split: option.splits)

lemma run_pushes:
  "m_is_running q \<Longrightarrow>
     run (map Push xs) q = Some (replicate (length xs) (Flag True), q\<lparr>m_queue := m_queue q @ xs\<rparr>)"
proof (induction xs arbitrary: q)
  case Nil
  then show ?case by simp
next
  case (Cons x xs)
  have r: "m_is_running (q\<lparr>m_queue := m_queue q @ [x]\<rparr>)" using Cons.prems by simp
  from Cons.prems Cons.IH [OF r] show ?case by (simp add: push_def)
qed

lemma run_takes:
  "length cs \<le> length (m_queue q) \<or> \<not> m_is_running q \<Longrightarrow>
   set cs \<subseteq> {Pop, TryPop, PopUntil, PopFor} \<Longrightarrow>
     run cs q = Some (map (\<lambda>x. Item (Some x)) (take (length cs) (m_queue q)) @
                      replicate (length cs - length (m_queue q)) (Item None),
                      q\<lparr>m_queue := drop (length cs) (m_queue q)\<rparr>)"
proof (induction cs arbitrary: q)
  case Nil
  then show ?case by simp
next
  case (Cons c cs)
  from Cons.prems(2) have c: "c \<in> {Pop, TryPop, PopUntil, PopFor}"
    and cs: "set cs \<subseteq> {Pop, TryPop, PopUntil, PopFor}" by auto
  from Cons.prems(1) have w: "wake_pred q" by (auto simp: wake_pred_def)
  note e = exec_take_ready [OF w c]
  show ?case
  proof (cases "m_queue q")
    case Nil
    with Cons.prems(1) have closed: "\<not> m_is_running q" by simp
    from Nil have t: "try_pop q = (None, q)" by (simp add: try_pop_def)
    from closed have "length cs \<le> length (m_queue q) \<or> \<not> m_is_running q" by simp
    from Cons.IH [OF this cs] Nil e t show ?thesis by simp
  next
    case (Cons y ys)
    let ?q1 = "q\<lparr>m_queue := ys\<rparr>"
    from Cons have t: "try_pop q = (Some y, ?q1)" by (simp add: try_pop_def)
    have l1: "length cs \<le> length (m_queue ?q1) \<or> \<not> m_is_running ?q1"
      using Cons.prems(1) Cons by auto
    from Cons.IH [OF l1 cs] e t Cons show ?thesis by simp
  qed
qed

section \<open>A push after close\<close>

text \<open>
  Claim C3. \<^verbatim>\<open>push(x)\<close> after \<^verbatim>\<open>close()\<close> returns false and leaves the queue, its buffer
  included, as \<^verbatim>\<open>close()\<close> left it. When \<open>x\<close> was not in the buffer before, no later call
  of the interface on this queue (\<^verbatim>\<open>pop\<close>, \<^verbatim>\<open>try_pop\<close>, \<^verbatim>\<open>pop_for\<close>, \<^verbatim>\<open>pop_until\<close> and
  \<^verbatim>\<open>front\<close> among them) returns \<open>x\<close>, and \<open>x\<close> is not in the buffer at the end.
\<close>

theorem push_after_close_rejected:
  "push x (close q) = (False, close q) \<and>
   (\<not> m_is_running q \<longrightarrow> push x q = (False, q)) \<and>
   m_queue (snd (push x (close q))) = m_queue q \<and>
   (x \<notin> set (m_queue q) \<and> run cs (snd (push x (close q))) = Some (rs, q') \<longrightarrow>
      Item (Some x) \<notin> set rs \<and> x \<notin> set (m_queue q'))"
proof (intro conjI impI)
  show "push x (close q) = (False, close q)" by (simp add: push_def close_def)
  show "m_queue (snd (push x (close q))) = m_queue q" by (simp add: push_def close_def)
next
  assume "\<not> m_is_running q"
  then show "push x q = (False, q)" by (simp add: push_def)
next
  assume a: "x \<notin> set (m_queue q) \<and> run cs (snd (push x (close q))) = Some (rs, q')"
  have c: "\<not> m_is_running (snd (push x (close q)))" by (simp add: push_def close_def)
  have m: "x \<notin> set (m_queue (snd (push x (close q))))" using a by (simp add: push_def close_def)
  from a have r: "run cs (snd (push x (close q))) = Some (rs, q')" by simp
  from run_closed [OF c r m]
  show "Item (Some x) \<notin> set rs" and "x \<notin> set (m_queue q')" by simp_all
qed

theorem push_after_close_rejected_witness:
  "push (9 :: nat) (close \<lparr>m_queue = [4], m_is_running = True\<rparr>) = (False, \<lparr>m_queue = [4], m_is_running = False\<rparr>) \<and>
   (9 :: nat) \<notin> set (m_queue \<lparr>m_queue = [4], m_is_running = True\<rparr>) \<and>
   run [Front, Pop, TryPop, PopFor, PopUntil] (snd (push (9 :: nat) (close \<lparr>m_queue = [4], m_is_running = True\<rparr>))) =
     Some ([Item (Some 4), Item (Some 4), Item None, Item None, Item None], \<lparr>m_queue = [], m_is_running = False\<rparr>) \<and>
   Item (Some (9 :: nat)) \<notin> set [Item (Some 4), Item (Some 4), Item None, Item None, Item None]"
  using push_after_close_rejected [of 9 "\<lparr>m_queue = [4 :: nat], m_is_running = True\<rparr>"
      "[Front, Pop, TryPop, PopFor, PopUntil]"
      "[Item (Some 4), Item (Some 4), Item None, Item None, Item None]"
      "\<lparr>m_queue = [], m_is_running = False\<rparr>"]
  by (simp add: push_def close_def front_def pop_def try_pop_def pop_for_def pop_until_def
      cv_wait_for_def wake_pred_def)

section \<open>First in, first out\<close>

text \<open>
  Claim C4. On a running queue with an empty buffer that one thread uses alone,
  pushing \<open>P1..Pn\<close> succeeds each time, and \<open>n\<close> calls of \<^verbatim>\<open>pop()\<close> then return
  \<open>P1..Pn\<close> in this order, leaving the queue as it was at the start.
\<close>

theorem fifo_order:
  "m_is_running q \<Longrightarrow> m_queue q = [] \<Longrightarrow>
     run (map Push xs @ replicate (length xs) Pop) q =
       Some (replicate (length xs) (Flag True) @ map (\<lambda>x. Item (Some x)) xs, q)"
proof -
  assume r: "m_is_running q" and e: "m_queue q = []"
  let ?q1 = "q\<lparr>m_queue := m_queue q @ xs\<rparr>"
  have p: "run (map Push xs) q = Some (replicate (length xs) (Flag True), ?q1)"
    using r by (rule run_pushes)
  have "length (replicate (length xs) (Pop :: 'a call)) \<le> length (m_queue ?q1) \<or> \<not> m_is_running ?q1"
    by simp
  moreover have "set (replicate (length xs) (Pop :: 'a call)) \<subseteq> {Pop, TryPop, PopUntil, PopFor}"
    by auto
  ultimately have t: "run (replicate (length xs) Pop) ?q1 =
      Some (map (\<lambda>x. Item (Some x)) (take (length xs) (m_queue ?q1)) @
            replicate (length xs - length (m_queue ?q1)) (Item None),
            ?q1\<lparr>m_queue := drop (length xs) (m_queue ?q1)\<rparr>)"
    using run_takes [of "replicate (length xs) Pop" ?q1] by simp
  from e have "?q1\<lparr>m_queue := drop (length xs) (m_queue ?q1)\<rparr> = q" by simp
  with t e have "run (replicate (length xs) Pop) ?q1 = Some (map (\<lambda>x. Item (Some x)) xs, q)"
    by simp
  with p show ?thesis by (simp add: run_append)
qed

theorem fifo_order_witness:
  "m_is_running (MTQueue_default :: nat MTQueue) \<and> m_queue (MTQueue_default :: nat MTQueue) = [] \<and>
   run [Push 3, Push 1, Push 2, Pop, Pop, Pop] (MTQueue_default :: nat MTQueue) =
     Some ([Flag True, Flag True, Flag True, Item (Some 3), Item (Some 1), Item (Some 2)], MTQueue_default)"
  using fifo_order [of "MTQueue_default :: nat MTQueue" "[3, 1, 2]"]
  by (simp add: MTQueue_default_def)

section \<open>Closing and draining\<close>

text \<open>
  Claim C5. A second \<^verbatim>\<open>close()\<close> changes nothing. After \<^verbatim>\<open>close()\<close>, calls of the pop
  family (\<^verbatim>\<open>pop\<close>, \<^verbatim>\<open>try_pop\<close>, \<^verbatim>\<open>pop_for\<close>, \<^verbatim>\<open>pop_until\<close>) return the items that were in the
  buffer at the close, in order, one per call, and absent only from the call on that
  finds the buffer exhausted.
\<close>

theorem close_idempotent_and_drains:
  "close (close q) = close q \<and>
   (set cs \<subseteq> {Pop, TryPop, PopUntil, PopFor} \<longrightarrow>
      run cs (close q) =
        Some (map (\<lambda>x. Item (Some x)) (take (length cs) (m_queue q)) @
              replicate (length cs - length (m_queue q)) (Item None),
              (close q)\<lparr>m_queue := drop (length cs) (m_queue q)\<rparr>))"
proof (intro conjI impI)
  show "close (close q) = close q" by (simp add: close_def)
next
  assume cs: "set cs \<subseteq> {Pop, TryPop, PopUntil, PopFor}"
  have "length cs \<le> length (m_queue (close q)) \<or> \<not> m_is_running (close q)"
    by (simp add: close_def)
  from run_takes [OF this cs] show "run cs (close q) =
        Some (map (\<lambda>x. Item (Some x)) (take (length cs) (m_queue q)) @
              replicate (length cs - length (m_queue q)) (Item None),
              (close q)\<lparr>m_queue := drop (length cs) (m_queue q)\<rparr>)"
    by (simp add: close_def)
qed

theorem close_idempotent_and_drains_witness:
  "set [Pop, TryPop, PopFor, PopUntil] \<subseteq> {Pop, TryPop, PopUntil, PopFor :: nat call} \<and>
   run [Pop, TryPop, PopFor, PopUntil] (close \<lparr>m_queue = [7, 8 :: nat], m_is_running = True\<rparr>) =
     Some ([Item (Some 7), Item (Some 8), Item None, Item None], \<lparr>m_queue = [], m_is_running = False\<rparr>)"
  using close_idempotent_and_drains [of "\<lparr>m_queue = [7, 8 :: nat], m_is_running = True\<rparr>"
      "[Pop, TryPop, PopFor, PopUntil]"]
  by (simp add: close_def)

section \<open>Moving a queue\<close>

text \<open>
  Claim C6. Moving a live queue \<open>A\<close> at address \<open>a\<close> into another address \<open>b\<close>, by
  move construction (nothing lives at \<open>b\<close> yet) or by move assignment (a queue
  \<open>B\<close> lives at \<open>b\<close>), succeeds; afterwards \<open>b\<close> holds the items of \<open>A\<close> in order
  and the running flag of \<open>A\<close>, \<open>a\<close> holds an empty buffer and is not running, and
  no other queue has changed.
\<close>

theorem move_transfers_state:
  "h a = Some A \<Longrightarrow> a \<noteq> b \<Longrightarrow>
   (h b = None \<longrightarrow>
      (\<exists>h'. move_construct b a h = Some h' \<and> h' b = Some A \<and>
            h' a = Some \<lparr>m_queue = [], m_is_running = False\<rparr> \<and>
            (\<forall>c. c \<noteq> a \<and> c \<noteq> b \<longrightarrow> h' c = h c))) \<and>
   (h b = Some B \<longrightarrow>
      (\<exists>h'. move_assign b a h = Some h' \<and> h' b = Some A \<and>
            h' a = Some \<lparr>m_queue = [], m_is_running = False\<rparr> \<and>
            (\<forall>c. c \<noteq> a \<and> c \<noteq> b \<longrightarrow> h' c = h c)))"
  by (cases A) (auto simp: move_construct_def move_assign_def moved_from_def MTQueue_default_def)

theorem move_transfers_state_witness:
  "[0 :: nat \<mapsto> \<lparr>m_queue = [4, 5 :: nat], m_is_running = True\<rparr>] 0 = Some \<lparr>m_queue = [4, 5], m_is_running = True\<rparr> \<and>
   (0 :: nat) \<noteq> 1 \<and>
   [0 :: nat \<mapsto> \<lparr>m_queue = [4, 5 :: nat], m_is_running = True\<rparr>] 1 = None \<and>
   Option.bind (move_construct 1 0 [0 \<mapsto> \<lparr>m_queue = [4, 5 :: nat], m_is_running = True\<rparr>]) (flag_at 1) = Some True \<and>
   Option.bind (move_construct 1 0 [0 \<mapsto> \<lparr>m_queue = [4, 5 :: nat], m_is_running = True\<rparr>]) (flag_at 0) = Some False"
  using move_transfers_state [of "[0 \<mapsto> \<lparr>m_queue = [4, 5 :: nat], m_is_running = True\<rparr>]" 0
      "\<lparr>m_queue = [4, 5 :: nat], m_is_running = True\<rparr>" 1]
  by (simp add: move_construct_def moved_from_def flag_at_def is_running_def)

text \<open>
  Claim C10. Move-assigning a queue to itself changes nothing: the store, and with it
  the items and the running flag of the queue, is the same afterwards.
\<close>

theorem self_move_assign_identity:
  "h a = Some A \<Longrightarrow> move_assign a a h = Some h \<and> step (MoveAssign a a) h = Some h"
  by (simp add: move_assign_def)

theorem self_move_assign_identity_witness:
  "[0 :: nat \<mapsto> \<lparr>m_queue = [4, 5 :: nat], m_is_running = True\<rparr>] 0 = Some \<lparr>m_queue = [4, 5], m_is_running = True\<rparr> \<and>
   move_assign 0 0 [0 \<mapsto> \<lparr>m_queue = [4, 5 :: nat], m_is_running = True\<rparr>] =
     Some [0 \<mapsto> \<lparr>m_queue = [4, 5 :: nat], m_is_running = True\<rparr>]"
  using self_move_assign_identity [of "[0 \<mapsto> \<lparr>m_queue = [4, 5 :: nat], m_is_running = True\<rparr>]" 0
      "\<lparr>m_queue = [4, 5 :: nat], m_is_running = True\<rparr>"]
  by simp

section \<open>The running flag\<close>

text \<open>
  Claim C1 does not hold as stated. A closed queue that is the destination of a move
  assignment from a running queue is running again; a queue move-constructed from a
  closed queue is not running when it is created; and a running queue becomes not
  running as the destination of a move assignment from a closed queue, without
  \<^verbatim>\<open>close()\<close> and without being a move source.
\<close>

theorem running_reverts_counterexample:
  "Option.bind (steps [New 0, On 0 Close, New 1] (Map.empty :: nat heap)) (flag_at 0) = Some False \<and>
   Option.bind (steps [New 0, On 0 Close, New 1, MoveAssign 0 1] (Map.empty :: nat heap)) (flag_at 0) = Some True \<and>
   Option.bind (steps [New 0, On 0 Close, MoveConstruct 1 0] (Map.empty :: nat heap)) (flag_at 1) = Some False \<and>
   Option.bind (steps [New 0, New 1, On 1 Close] (Map.empty :: nat heap)) (flag_at 0) = Some True \<and>
   Option.bind (steps [New 0, New 1, On 1 Close, MoveAssign 0 1] (Map.empty :: nat heap)) (flag_at 0) = Some False"
  by (simp add: move_assign_def move_construct_def moved_from_def flag_at_def is_running_def close_def
      MTQueue_default_def)

lemma exec_flag:
  "exec c q = Some (r, q') \<Longrightarrow> m_is_running q' = (m_is_running q \<and> c \<noteq> Close)"
  by (cases c)
    (auto simp: push_def pop_def try_pop_def pop_until_def pop_for_def cv_wait_for_def front_def
      close_def split: if_splits)

lemma flag_rises_only_by_move_assign:
  assumes "step x h = Some h'" and "h a = Some q0" and "h' a = Some q1"
    and "\<not> m_is_running q0" and "m_is_running q1"
  shows "\<exists>b src. x = MoveAssign a b \<and> b \<noteq> a \<and> h b = Some src \<and> m_is_running src"
proof (cases x)
  case (New c)
  with assms show ?thesis by (auto split: if_splits)
next
  case (On c d)
  with assms show ?thesis by (auto split: option.splits if_splits dest: exec_flag)
next
  case (Delete c)
  with assms show ?thesis by (auto split: option.splits if_splits)
next
  case (MoveConstruct c d)
  with assms show ?thesis by (auto simp: move_construct_def split: option.splits if_splits)
next
  case (MoveAssign c d)
  with assms show ?thesis by (auto simp: move_assign_def split: option.splits if_splits)
qed

lemma flag_falls_only_by_close_or_move:
  assumes "step x h = Some h'" and "h a = Some q0" and "h' a = Some q1"
    and "m_is_running q0" and "\<not> m_is_running q1"
  shows "x = On a Close \<or> (\<exists>b. b \<noteq> a \<and> (x = MoveConstruct b a \<or> x = MoveAssign b a)) \<or>
      (\<exists>b src. x = MoveAssign a b \<and> b \<noteq> a \<and> h b = Some src \<and> \<not> m_is_running src)"
proof (cases x)
  case (New c)
  with assms show ?thesis by (auto split: if_splits)
next
  case (On c d)
  with assms show ?thesis by (auto split: option.splits if_splits dest: exec_flag)
next
  case (Delete c)
  with assms show ?thesis by (auto split: option.splits if_splits)
next
  case (MoveConstruct c d)
  with assms show ?thesis by (auto simp: move_construct_def split: option.splits if_splits)
next
  case (MoveAssign c d)
  with assms show ?thesis by (auto simp: move_assign_def split: option.splits if_splits)
qed

lemma creation_flag:
  "(step (New a) h = Some h' \<longrightarrow> flag_at a h' = Some True) \<and>
   (step (MoveConstruct a b) h = Some h' \<longrightarrow> flag_at a h' = flag_at b h)"
  by (auto simp: move_construct_def flag_at_def is_running_def MTQueue_default_def
      split: option.splits if_splits)

lemma step_flag_effects:
  "(step (On a c) h = Some h' \<and> c \<noteq> Close \<longrightarrow> flag_at a h' = flag_at a h) \<and>
   (step (On a Close) h = Some h' \<longrightarrow> flag_at a h' = Some False) \<and>
   (step (MoveConstruct b a) h = Some h' \<longrightarrow> flag_at a h' = Some False) \<and>
   (step (MoveAssign b a) h = Some h' \<and> b \<noteq> a \<longrightarrow> flag_at a h' = Some False \<and> flag_at b h' = flag_at a h)"
proof (intro conjI impI)
  assume "step (On a c) h = Some h' \<and> c \<noteq> Close"
  then show "flag_at a h' = flag_at a h"
    by (auto simp: flag_at_def is_running_def split: option.splits dest: exec_flag)
next
  assume "step (On a Close) h = Some h'"
  then show "flag_at a h' = Some False"
    by (auto simp: flag_at_def is_running_def close_def split: option.splits)
next
  assume "step (MoveConstruct b a) h = Some h'"
  then show "flag_at a h' = Some False"
    by (auto simp: move_construct_def flag_at_def is_running_def split: option.splits if_splits)
next
  assume a: "step (MoveAssign b a) h = Some h' \<and> b \<noteq> a"
  then show "flag_at a h' = Some False"
    by (auto simp: move_assign_def flag_at_def is_running_def split: option.splits if_splits)
  from a show "flag_at b h' = flag_at a h"
    by (auto simp: move_assign_def flag_at_def is_running_def split: option.splits if_splits)
qed

text \<open>
  Claim C1, amended. A default-constructed queue is running, a move-constructed one
  starts with the flag its source had; \<^verbatim>\<open>close()\<close>, the destructor and being the source
  of a move leave the flag false, and no other call on a queue changes its flag. One
  step of the public interface turns the flag of a live queue from false to true only
  if the queue is the destination of a move assignment from a distinct running
  queue, and from true to false only if the step is \<^verbatim>\<open>close()\<close> on the queue, a move
  out of the queue, or a move assignment into it from a distinct closed queue.
\<close>

theorem running_flag_transitions:
  "m_is_running MTQueue_default \<and> \<not> m_is_running (close q) \<and> \<not> m_is_running (destructor q) \<and>
   (step (New a) h = Some h' \<longrightarrow> flag_at a h' = Some True) \<and>
   (step (MoveConstruct a b) h = Some h' \<longrightarrow> flag_at a h' = flag_at b h) \<and>
   (step x h = Some h' \<and> h a = Some q0 \<and> h' a = Some q1 \<and> \<not> m_is_running q0 \<and> m_is_running q1 \<longrightarrow>
      (\<exists>b src. x = MoveAssign a b \<and> b \<noteq> a \<and> h b = Some src \<and> m_is_running src)) \<and>
   (step x h = Some h' \<and> h a = Some q0 \<and> h' a = Some q1 \<and> m_is_running q0 \<and> \<not> m_is_running q1 \<longrightarrow>
      x = On a Close \<or> (\<exists>b. b \<noteq> a \<and> (x = MoveConstruct b a \<or> x = MoveAssign b a)) \<or>
      (\<exists>b src. x = MoveAssign a b \<and> b \<noteq> a \<and> h b = Some src \<and> \<not> m_is_running src)) \<and>
   (step (On a c) h = Some h' \<and> c \<noteq> Close \<longrightarrow> flag_at a h' = flag_at a h) \<and>
   (step (On a Close) h = Some h' \<longrightarrow> flag_at a h' = Some False) \<and>
   (step (MoveConstruct b a) h = Some h' \<longrightarrow> flag_at a h' = Some False) \<and>
   (step (MoveAssign b a) h = Some h' \<and> b \<noteq> a \<longrightarrow> flag_at a h' = Some False \<and> flag_at b h' = flag_at a h)"
proof -
  have basic: "m_is_running (MTQueue_default :: 'a MTQueue)" "\<not> m_is_running (close q)"
    "\<not> m_is_running (destructor q)"
    by (simp_all add: MTQueue_default_def destructor_def close_def)
  note rise = flag_rises_only_by_move_assign [of x h h' a q0 q1]
    and fall = flag_falls_only_by_close_or_move [of x h h' a q0 q1]
  from basic rise fall creation_flag [of a h h' b] step_flag_effects [of a c h h' b]
  show ?thesis by blast
qed

theorem running_flag_transitions_witness:
  "step (MoveAssign 0 1)
      [0 \<mapsto> \<lparr>m_queue = [], m_is_running = False\<rparr>, 1 \<mapsto> \<lparr>m_queue = [7 :: nat], m_is_running = True\<rparr>] =
     Some ([0 \<mapsto> \<lparr>m_queue = [], m_is_running = False\<rparr>, 1 \<mapsto> \<lparr>m_queue = [7 :: nat], m_is_running = True\<rparr>]
            (0 \<mapsto> \<lparr>m_queue = [7], m_is_running = True\<rparr>, 1 \<mapsto> \<lparr>m_queue = [], m_is_running = False\<rparr>)) \<and>
   (\<exists>b src. (MoveAssign 0 1 :: nat op) = MoveAssign 0 b \<and> b \<noteq> 0 \<and>
      [0 \<mapsto> \<lparr>m_queue = [], m_is_running = False\<rparr>, 1 \<mapsto> \<lparr>m_queue = [7 :: nat], m_is_running = True\<rparr>] b = Some src \<and>
      m_is_running src) \<and>
   step (On 0 Close) [0 \<mapsto> \<lparr>m_queue = [7 :: nat], m_is_running = True\<rparr>] =
     Some ([0 \<mapsto> \<lparr>m_queue = [7 :: nat], m_is_running = True\<rparr>](0 \<mapsto> \<lparr>m_queue = [7], m_is_running = False\<rparr>)) \<and>
   step (New 0) (Map.empty :: nat heap) = Some (Map.empty(0 \<mapsto> MTQueue_default)) \<and>
   flag_at 0 ((Map.empty :: nat heap)(0 \<mapsto> MTQueue_default)) = Some True"
  using running_flag_transitions [where q = "MTQueue_default :: nat MTQueue" and a = 0 and b = 1
      and x = "MoveAssign 0 1"
      and h = "[0 \<mapsto> \<lparr>m_queue = [], m_is_running = False\<rparr>, 1 \<mapsto> \<lparr>m_queue = [7 :: nat], m_is_running = True\<rparr>]"
      and h' = "[0 \<mapsto> \<lparr>m_queue = [], m_is_running = False\<rparr>, 1 \<mapsto> \<lparr>m_queue = [7 :: nat], m_is_running = True\<rparr>]
            (0 \<mapsto> \<lparr>m_queue = [7], m_is_running = True\<rparr>, 1 \<mapsto> \<lparr>m_queue = [], m_is_running = False\<rparr>)"
      and ?q0.0 = "\<lparr>m_queue = [], m_is_running = False\<rparr>" and ?q1.0 = "\<lparr>m_queue = [7], m_is_running = True\<rparr>"]
    running_flag_transitions [where q = "MTQueue_default :: nat MTQueue" and a = 0 and b = 1
      and x = "On 0 Close"
      and h = "Map.empty :: nat heap"
      and h' = "(Map.empty :: nat heap)(0 \<mapsto> MTQueue_default)"
      and ?q0.0 = "\<lparr>m_queue = [], m_is_running = False\<rparr>" and ?q1.0 = "\<lparr>m_queue = [7], m_is_running = True\<rparr>"]
  by (simp add: move_assign_def moved_from_def close_def flag_at_def is_running_def MTQueue_default_def)

end
